theory Spec2Isabelle
  imports Main "HOL-Library.Word"
begin

section \<open>Constants of slip.c\<close>

type_synonym byte = "8 word"

definition MTU :: nat where
  "MTU = 1500"

definition NULL_LOOPBACK_HEADER_SIZE :: nat where
  "NULL_LOOPBACK_HEADER_SIZE = 4"

definition MAX_PACKET_SIZE :: nat where
  "MAX_PACKET_SIZE = MTU + NULL_LOOPBACK_HEADER_SIZE"

definition MAX_PACKET_SIZE_SLIP :: nat where
  "MAX_PACKET_SIZE_SLIP = MTU * 2 + 1"

definition END :: byte where
  "END = 0xc0"

definition ESC :: byte where
  "ESC = 0xdb"

definition ESC_ESC :: byte where
  "ESC_ESC = 0xdd"

definition ESC_END :: byte where
  "ESC_END = 0xdc"

definition DECODE_END_OF_PACKET :: int where
  "DECODE_END_OF_PACKET = - 2"

text \<open>
  \<open>AF_INET\<close> comes from the system header \<open><sys/socket.h>\<close>; its value there is 2.
\<close>

definition AF_INET :: byte where
  "AF_INET = 2"

lemmas slip_bytes = END_def ESC_def ESC_END_def ESC_ESC_def DECODE_END_OF_PACKET_def

section \<open>The encoder\<close>

text \<open>
  \<open>encode_slip(in, out, length)\<close> walks \<open>length\<close> bytes starting at \<open>in\<close>. The pair
  of pointer and length is the list \<open>inp\<close>; advancing \<open>in\<close> is taking the tail. The bytes
  stored through \<open>out\<close> are collected in order, and \<open>count\<close> is the C \<open>int\<close> that the
  function returns. Each escaped byte bumps \<open>count\<close> twice, once in its branch and once at
  the end of the loop body.
\<close>

fun encode_loop :: "byte list \<Rightarrow> byte list \<Rightarrow> int \<Rightarrow> byte list \<times> int" where
  "encode_loop [] out count = (out, count)"
| "encode_loop (c # inp) out count =
     (if c = END then encode_loop inp (out @ [ESC, ESC_END]) (count + 1 + 1)
      else if c = ESC then encode_loop inp (out @ [ESC, ESC_ESC]) (count + 1 + 1)
      else encode_loop inp (out @ [c]) (count + 1))"

definition encode_slip :: "byte list \<Rightarrow> byte list \<times> int" where
  "encode_slip inp =
     (case encode_loop inp [] 0 of (out, count) \<Rightarrow> (out @ [END], count + 1))"

text \<open>
  \<open>stuff c\<close> is what one round of the loop of \<open>encode_slip\<close> stores for the input
  byte \<open>c\<close>; it serves to state what the loop computes.
\<close>

definition stuff :: "byte \<Rightarrow> byte list" where
  "stuff c = (if c = END then [ESC, ESC_END] else if c = ESC then [ESC, ESC_ESC] else [c])"

section \<open>The transport channel as the decoder reads it\<close>

text \<open>
  Every call \<open>read(fd, &c, 1)\<close> has one of three outcomes: it stores a byte and returns 1,
  it returns 0 (end of stream, or nothing to deliver), or it returns -1 (an I/O error).
  In the last two cases \<open>c\<close> keeps the value it had. A channel is the list of the outcomes
  of the coming calls; once the list is used up every further call returns 0.
\<close>

datatype read_event = Got byte | Zero | Fail

fun read1 :: "read_event list \<Rightarrow> byte \<Rightarrow> int \<times> byte \<times> read_event list" where
  "read1 [] c = (0, c, [])"
| "read1 (Got b # fd) c = (1, b, fd)"
| "read1 (Zero # fd) c = (0, c, fd)"
| "read1 (Fail # fd) c = (- 1, c, fd)"

section \<open>The decoder\<close>


text \<open>
  Both \<open>return -1\<close> paths of \<open>decode_slip\<close> give the caller the same integer; they differ
  in the line they print, which names the error here. \<open>Out_of_bounds i\<close> is not a return
  value of the C code: it marks the store \<open>buf[i] = ...\<close> of \<open>next_slip_packet\<close> at an
  index outside the array, where C leaves the behaviour undefined.
\<close>

datatype slip_error = Read_error | Decoding_error | Out_of_bounds nat

text \<open>
  The local \<open>unsigned char c\<close> of \<open>decode_slip\<close> is not initialised, so its content
  before the first \<open>read\<close> is whatever its stack slot holds: the parameter \<open>c0\<close>. Every
  call of \<open>decode_slip\<close> uses the same slot, so what one call leaves in \<open>c\<close> is what the
  next call finds there; the last component of the result is that content. The test
  \<open>!read(...)\<close> is true exactly when \<open>read\<close> returns 0.
\<close>

definition decode_slip ::
  "byte \<Rightarrow> read_event list \<Rightarrow> (slip_error + int) \<times> read_event list \<times> byte" where
  "decode_slip c0 fd =
     (case read1 fd c0 of (n, c, fd1) \<Rightarrow>
        if n = 0 then (Inl Read_error, fd1, c)
        else if c = ESC then
          (case read1 fd1 c of (n2, c2, fd2) \<Rightarrow>
             if n2 = 0 then (Inl Read_error, fd2, c2)
             else if c2 = ESC_END then (Inr (uint END), fd2, c2)
             else if c2 = ESC_ESC then (Inr (uint ESC), fd2, c2)
             else (Inl Decoding_error, fd2, c2))
        else if c = END then (Inr DECODE_END_OF_PACKET, fd1, c)
        else (Inr (uint c), fd1, c))"

lemma read1_length:
  "read1 fd c = (n, c', fd') \<Longrightarrow> length fd' \<le> length fd \<and> (n \<noteq> 0 \<longrightarrow> length fd' < length fd)"
  by (cases "(fd, c)" rule: read1.cases) auto

lemma decode_slip_shorter:
  "(Inr r, fd', c') = decode_slip c0 fd \<Longrightarrow> length fd' < length fd"
  unfolding decode_slip_def
  by (auto split: prod.splits if_splits dest!: read1_length)

text \<open>
  \<open>next_slip_packet(fd, buf)\<close>: \<open>buf\<close> is the caller's array, returned with the stores
  made into it; \<open>i\<close> is the loop's counter. The result is \<open>Inr i\<close> for \<open>return i\<close> and
  \<open>Inl e\<close> for \<open>return -1\<close>. Each round hands the content that the last call of
  \<open>decode_slip\<close> left in \<open>c\<close> to the next call, and the last component of the result is
  the content at the return.
\<close>

function next_loop ::
  "byte \<Rightarrow> read_event list \<Rightarrow> byte list \<Rightarrow> nat \<Rightarrow>
   (slip_error + int) \<times> byte list \<times> read_event list \<times> byte" where
  "next_loop c0 fd buf i =
     (case decode_slip c0 fd of
        (Inl e, fd', c') \<Rightarrow> (Inl e, buf, fd', c')
      | (Inr result, fd', c') \<Rightarrow>
          if result = DECODE_END_OF_PACKET then (Inr (int i), buf, fd', c')
          else if i < length buf then next_loop c' fd' (buf[i := word_of_int result]) (Suc i)
          else (Inl (Out_of_bounds i), buf, fd', c'))"
  by pat_completeness auto
termination
  by (relation "measure (\<lambda>(c0, fd, buf, i). length fd)") (auto dest: decode_slip_shorter)

definition next_slip_packet ::
  "byte \<Rightarrow> read_event list \<Rightarrow> byte list \<Rightarrow>
   (slip_error + int) \<times> byte list \<times> read_event list \<times> byte" where
  "next_slip_packet c0 fd buf = next_loop c0 fd buf 0"

declare next_loop.simps [simp del]

lemma next_loop_shorter:
  "next_loop c0 fd buf i = (Inr n, buf', fd', c') \<Longrightarrow> length fd' < length fd"
proof (induction c0 fd buf i rule: next_loop.induct)
  case (1 c0 fd buf i)
  obtain r fd1 c1 where d: "decode_slip c0 fd = (r, fd1, c1)"
    by (cases "decode_slip c0 fd")
  show ?case
  proof (cases r)
    case (Inl e)
    with d "1.prems" show ?thesis
      by (subst (asm) next_loop.simps) simp
  next
    case (Inr result)
    from d Inr have less: "length fd1 < length fd"
      by (auto intro: decode_slip_shorter [of result fd1 c1 c0 fd])
    show ?thesis
    proof (cases "result = DECODE_END_OF_PACKET")
      case True
      with d Inr "1.prems" less show ?thesis
        by (subst (asm) next_loop.simps) simp
    next
      case False
      show ?thesis
      proof (cases "i < length buf")
        case True
        from d Inr False True "1.prems"
        have "next_loop c1 fd1 (buf[i := word_of_int result]) (Suc i) = (Inr n, buf', fd', c')"
          by (subst (asm) next_loop.simps) simp
        with "1.IH" [OF d [symmetric] Inr refl False True] less show ?thesis
          by simp
      next
        case nope: False
        with d Inr False "1.prems" show ?thesis
          by (subst (asm) next_loop.simps) simp
      qed
    qed
  qed
qed

lemma next_slip_packet_shorter:
  "(Inr n, buf', fd', c') = next_slip_packet c0 fd buf \<Longrightarrow> length fd' < length fd"
  unfolding next_slip_packet_def by (rule next_loop_shorter [OF sym])

text \<open>
  \<open>bad_escape bs\<close>: somewhere in the byte stream \<open>bs\<close> an \<open>ESC\<close> is followed by a byte
  that is neither \<open>ESC_END\<close> nor \<open>ESC_ESC\<close>.
\<close>

fun bad_escape :: "byte list \<Rightarrow> bool" where
  "bad_escape (a # b # bs) = ((a = ESC \<and> b \<noteq> ESC_END \<and> b \<noteq> ESC_ESC) \<or> bad_escape (b # bs))"
| "bad_escape bs = False"

section \<open>The inbound pump\<close>

text \<open>
  \<open>rx_thread\<close> loops over \<open>next_slip_packet\<close>. A negative \<open>length\<close> (the \<open>Inl\<close>
  results here) ends the thread, a \<open>length\<close> below 1 goes round again, and anything else
  is copied behind the four header bytes and handed to \<open>write(args->utunfd, ...)\<close>, whose
  result the code does not look at. The model collects the frames handed to that
  \<open>write\<close> and the reason the thread stopped. The array \<open>c\<close> keeps its content from one
  round to the next, and so does the stack slot of the local of \<open>decode_slip\<close>: the
  content that \<open>next_slip_packet\<close> returned goes into the next round.
\<close>

function rx_loop ::
  "byte \<Rightarrow> read_event list \<Rightarrow> byte list \<Rightarrow> byte list list \<Rightarrow> byte list list \<times> slip_error" where
  "rx_loop c0 fd c written =
     (case next_slip_packet c0 fd c of
        (Inl e, c', fd', c1) \<Rightarrow> (written, e)
      | (Inr len, c', fd', c1) \<Rightarrow>
          if len < 1 then rx_loop c1 fd' c' written
          else rx_loop c1 fd' c' (written @ [[0, 0, 0, AF_INET] @ take (nat len) c']))"
  by pat_completeness auto
termination
  by (relation "measure (\<lambda>(c0, fd, c, written). length fd)")
     (auto dest: next_slip_packet_shorter)

declare rx_loop.simps [simp del]

text \<open>
  The array \<open>c[MTU]\<close> of \<open>rx_thread\<close> is not initialised either. The model starts it
  with zeros; the frames written take from it only the places below the \<open>length\<close> that
  \<open>next_slip_packet\<close> returned.
\<close>

definition rx_thread :: "byte \<Rightarrow> read_event list \<Rightarrow> byte list list \<times> slip_error" where
  "rx_thread c0 fd = rx_loop c0 fd (replicate MTU 0) []"

section \<open>The outbound pump\<close>

text \<open>
  One \<open>read\<close> on the tunnel returns -1 or delivers a frame, cut to the
  \<open>MAX_PACKET_SIZE\<close> bytes asked for. One \<open>write\<close> on the transport returns -1, or
  takes some number of the bytes offered and returns it, or does not return at all: a
  \<open>write\<close> to a stream socket whose peer has gone raises \<open>SIGPIPE\<close>, for which
  \<open>slip.c\<close> installs no handler, and the signal ends the process. (Both socket
  transports are \<open>AF_UNIX\<close> stream sockets, and \<open>main\<close> leaves the old descriptor in
  \<open>thread_args.serialfd\<close> until \<open>connect_device\<close> has returned a new one.) The lists
  give the outcomes of the coming calls; a call beyond the end of its list is still
  blocked.
\<close>

datatype tun_read = Tun_fail | Tun_frame "byte list"

datatype write_outcome = Write_fail | Written nat | Write_sigpipe

text \<open>
  Why the model of \<open>tx_thread\<close> stops: \<open>return vargp\<close> after a failed \<open>read\<close>; a
  \<open>memcpy\<close> whose length \<open>len\<close> is negative (undefined behaviour in C, the length
  converts to a huge \<open>size_t\<close>); the process killed by \<open>SIGPIPE\<close> inside \<open>write\<close>; or
  a call that is still blocked.
\<close>

datatype tx_stop =
  Tun_read_error | Memcpy_negative int | Killed_by_SIGPIPE | Blocked_in_read | Blocked_in_write

record tx_result =
  wire :: "byte list"
  calls :: "byte list list"
  stop :: tx_stop

text \<open>
  \<open>wire\<close> holds the bytes the transport has taken so far, \<open>calls\<close> the buffers handed
  to \<open>write(args->serialfd, encoded, encoded_length)\<close>, one per call. The result of
  that \<open>write\<close> is not stored or tested by the code.
\<close>

fun tx_loop :: "tun_read list \<Rightarrow> write_outcome list \<Rightarrow> byte list \<Rightarrow> byte list list \<Rightarrow> tx_result" where
  "tx_loop [] ws w cs = \<lparr>wire = w, calls = cs, stop = Blocked_in_read\<rparr>"
| "tx_loop (Tun_fail # rs) ws w cs = \<lparr>wire = w, calls = cs, stop = Tun_read_error\<rparr>"
| "tx_loop (Tun_frame f # rs) ws w cs =
     (let c = take MAX_PACKET_SIZE f;
          len = int (length c) - 4
      in if len < 0 then \<lparr>wire = w, calls = cs, stop = Memcpy_negative len\<rparr>
         else
           (case encode_slip (take (nat len) (drop 4 c)) of (encoded, encoded_length) \<Rightarrow>
              (case ws of
                 [] \<Rightarrow> \<lparr>wire = w, calls = cs @ [take (nat encoded_length) encoded], stop = Blocked_in_write\<rparr>
               | Write_fail # ws' \<Rightarrow> tx_loop rs ws' w (cs @ [take (nat encoded_length) encoded])
               | Written k # ws' \<Rightarrow>
                   tx_loop rs ws' (w @ take k (take (nat encoded_length) encoded))
                     (cs @ [take (nat encoded_length) encoded])
               | Write_sigpipe # ws' \<Rightarrow>
                   \<lparr>wire = w, calls = cs @ [take (nat encoded_length) encoded],
                    stop = Killed_by_SIGPIPE\<rparr>)))"

definition tx_thread :: "tun_read list \<Rightarrow> write_outcome list \<Rightarrow> tx_result" where
  "tx_thread rs ws = tx_loop rs ws [] []"

text \<open>
  Two notions to state what the pump does with a frame \<open>f\<close> read from the tunnel:
  \<open>sent_frame f\<close> is the buffer it hands to \<open>write\<close> (the bytes behind the four header
  bytes, encoded), and \<open>accepted wo encoded\<close> is the part of a buffer that reaches the
  transport when the \<open>write\<close> has the outcome \<open>wo\<close>.
\<close>

definition sent_frame :: "byte list \<Rightarrow> byte list" where
  "sent_frame f = fst (encode_slip (drop 4 (take MAX_PACKET_SIZE f)))"


section \<open>Opening the transport\<close>

text \<open>
  \<open>main\<close> lets only the three device types through. Which system calls of one
  attempt succeed is the environment's choice, given by a record; \<open>sys_fd\<close> is the
  descriptor the attempt yields when all goes well. A call of one of the three opening
  functions either returns an \<open>int\<close> or leaves through \<open>exit\<close>.
\<close>

datatype device_type = DEVICE_TYPE_HARDWARE | DEVICE_TYPE_SOCKET_CLIENT | DEVICE_TYPE_SOCKET_SERVER

record syscalls =
  sys_open :: bool
  sys_tcgetattr :: bool
  sys_tcsetattr :: bool
  sys_socket :: bool
  sys_connect :: bool
  sys_bind :: bool
  sys_listen :: bool
  sys_accept :: bool
  sys_fd :: int

datatype call = Return int | Exit int

definition open_serial_port :: "syscalls \<Rightarrow> call" where
  "open_serial_port s =
     (if \<not> sys_open s then Return (- 1)
      else if \<not> sys_tcgetattr s then Return (- 1)
      else if \<not> sys_tcsetattr s then Return (- 1)
      else Return (sys_fd s))"

definition open_unix_domain_socket_as_client :: "syscalls \<Rightarrow> bool \<Rightarrow> call" where
  "open_unix_domain_socket_as_client s error_is_fatal =
     (if \<not> sys_socket s then Exit (- 1)
      else if \<not> sys_connect s then Return (- 1)
      else Return (sys_fd s))"

definition open_unix_domain_socket_as_server :: "syscalls \<Rightarrow> call" where
  "open_unix_domain_socket_as_server s =
     (if \<not> sys_socket s then Exit (- 1)
      else if \<not> sys_bind s then Exit (- 1)
      else if \<not> sys_listen s then Exit (- 1)
      else if \<not> sys_accept s then Return (- 1)
      else Return (sys_fd s))"

text \<open>
  \<open>connect_device\<close> takes the outcomes of the coming attempts as a list. It returns a
  descriptor, or the process exits with a status, or (the list used up) the loop is still
  going round.
\<close>

datatype connect_result = Connected int | Exited int | Still_retrying

fun connect_device :: "device_type \<Rightarrow> bool \<Rightarrow> syscalls list \<Rightarrow> connect_result" where
  "connect_device device_type error_is_fatal [] = Still_retrying"
| "connect_device device_type error_is_fatal (s # ss) =
     (case (case device_type of
              DEVICE_TYPE_HARDWARE \<Rightarrow> open_serial_port s
            | DEVICE_TYPE_SOCKET_CLIENT \<Rightarrow> open_unix_domain_socket_as_client s error_is_fatal
            | DEVICE_TYPE_SOCKET_SERVER \<Rightarrow> open_unix_domain_socket_as_server s) of
        Exit status \<Rightarrow> Exited status
      | Return fd \<Rightarrow>
          if fd = - 1 then (if error_is_fatal then Exited 1 else connect_device device_type error_is_fatal ss)
          else Connected fd)"

section \<open>Facts about the codec\<close>

subsection \<open>What the encoder computes\<close>

lemma encode_loop_eq:
  "encode_loop p out n = (out @ concat (map stuff p), n + int (length (concat (map stuff p))))"
  by (induction p arbitrary: out n) (simp_all add: stuff_def)

lemma encode_slip_eq:
  "encode_slip p = (concat (map stuff p) @ [END], int (length (concat (map stuff p))) + 1)"
  by (simp add: encode_slip_def encode_loop_eq)

lemma encode_slip_count:
  "encode_slip p = (out, n) \<Longrightarrow> take (nat n) out = out"
  by (auto simp: encode_slip_eq)

lemma length_stuff: "1 \<le> length (stuff b) \<and> length (stuff b) \<le> 2"
  by (simp add: stuff_def)

lemma length_stuffed:
  "length p \<le> length (concat (map stuff p)) \<and> length (concat (map stuff p)) \<le> 2 * length p"
proof (induction p)
  case Nil
  then show ?case by simp
next
  case (Cons b p)
  with length_stuff [of b] show ?case by simp
qed

lemma length_stuffed_all_END: "length (concat (replicate n (stuff END))) = 2 * n"
  by (induction n) (simp_all add: stuff_def)

lemma stuffed_plain: "b \<noteq> END \<Longrightarrow> b \<noteq> ESC \<Longrightarrow> concat (replicate n (stuff b)) = replicate n b"
  by (induction n) (simp_all add: stuff_def)

lemma encode_slip_plain:
  "b \<noteq> END \<Longrightarrow> b \<noteq> ESC \<Longrightarrow> fst (encode_slip (replicate n b)) = replicate n b @ [END]"
  by (simp add: encode_slip_eq stuffed_plain)

subsection \<open>Single calls of the decoder\<close>

lemma uint_byte_not_end: "uint (b :: byte) \<noteq> DECODE_END_OF_PACKET"
proof -
  have "0 \<le> uint b" by simp
  then show ?thesis unfolding DECODE_END_OF_PACKET_def by linarith
qed

lemma decode_slip_END: "decode_slip c0 (Got END # fd) = (Inr DECODE_END_OF_PACKET, fd, END)"
  by (simp add: decode_slip_def slip_bytes)

lemma decode_slip_plain:
  "b \<noteq> END \<Longrightarrow> b \<noteq> ESC \<Longrightarrow> decode_slip c0 (Got b # fd) = (Inr (uint b), fd, b)"
  by (simp add: decode_slip_def)

lemma decode_slip_ESC_END:
  "decode_slip c0 (Got ESC # Got ESC_END # fd) = (Inr (uint END), fd, ESC_END)"
  by (simp add: decode_slip_def)

lemma decode_slip_ESC_ESC:
  "decode_slip c0 (Got ESC # Got ESC_ESC # fd) = (Inr (uint ESC), fd, ESC_ESC)"
  by (simp add: decode_slip_def slip_bytes)

lemma decode_slip_bad_escape:
  "c \<noteq> ESC_END \<Longrightarrow> c \<noteq> ESC_ESC \<Longrightarrow>
   decode_slip c0 (Got ESC # Got c # fd) = (Inl Decoding_error, fd, c)"
  by (simp add: decode_slip_def)

subsection \<open>The loop of the decoder\<close>

lemma next_loop_END: "next_loop c0 (Got END # fd) buf i = (Inr (int i), buf, fd, END)"
  by (subst next_loop.simps) (simp add: decode_slip_END)

lemma next_loop_stuff:
  "i < length buf \<Longrightarrow>
   next_loop c0 (map Got (stuff b) @ fd) buf i = next_loop (last (stuff b)) fd (buf[i := b]) (Suc i)"
  by (subst next_loop.simps)
     (simp add: stuff_def decode_slip_plain decode_slip_ESC_END decode_slip_ESC_ESC uint_byte_not_end)

lemma next_loop_stuff_full:
  "length buf \<le> i \<Longrightarrow>
   next_loop c0 (map Got (stuff b) @ fd) buf i = (Inl (Out_of_bounds i), buf, fd, last (stuff b))"
  by (subst next_loop.simps)
     (simp add: stuff_def decode_slip_plain decode_slip_ESC_END decode_slip_ESC_ESC uint_byte_not_end)

lemma next_loop_bad_escape:
  "c \<noteq> ESC_END \<Longrightarrow> c \<noteq> ESC_ESC \<Longrightarrow>
   next_loop c0 (Got ESC # Got c # fd) buf i = (Inl Decoding_error, buf, fd, c)"
  by (subst next_loop.simps) (simp add: decode_slip_bad_escape)

lemma next_slip_packet_eof: "next_slip_packet c0 [] buf = (Inl Read_error, buf, [], c0)"
  unfolding next_slip_packet_def by (subst next_loop.simps) (simp add: decode_slip_def)

lemma next_loop_prefix:
  "i + length p \<le> length buf \<Longrightarrow>
   \<exists>c'. next_loop c0 (map Got (concat (map stuff p)) @ fd) buf i =
     next_loop c' fd (take i buf @ p @ drop (i + length p) buf) (i + length p)"
proof (induction p arbitrary: i buf c0)
  case Nil
  then show ?case by auto
next
  case (Cons b p)
  from Cons.prems have i: "i < length buf" and rest: "Suc i + length p \<le> length (buf[i := b])"
    by simp_all
  have "take (Suc i) (buf[i := b]) = take i buf @ [b]"
    using i by (simp add: take_Suc_conv_app_nth)
  moreover have "drop (Suc i + length p) (buf[i := b]) = drop (Suc i + length p) buf"
    by simp
  ultimately show ?case
    using Cons.IH [OF rest, of "last (stuff b)"] i by (simp add: next_loop_stuff)
qed

lemma next_loop_encoded:
  "i + length p \<le> length buf \<Longrightarrow>
   next_loop c0 (map Got (concat (map stuff p)) @ Got END # fd) buf i =
     (Inr (int (i + length p)), take i buf @ p @ drop (i + length p) buf, fd, END)"
  using next_loop_prefix [of i p buf c0 "Got END # fd"] by (auto simp: next_loop_END)

lemma next_loop_overrun:
  "i \<le> length buf \<Longrightarrow> length buf < i + length p \<Longrightarrow>
   fst (next_loop c0 (map Got (concat (map stuff p)) @ fd) buf i) = Inl (Out_of_bounds (length buf))"
proof (induction p arbitrary: i buf c0)
  case Nil
  then show ?case by simp
next
  case (Cons b p)
  show ?case
  proof (cases "i < length buf")
    case True
    with Cons.prems Cons.IH [of "Suc i" "buf[i := b]"] show ?thesis
      by (simp add: next_loop_stuff)
  next
    case False
    with Cons.prems have "i = length buf" by simp
    then show ?thesis by (simp add: next_loop_stuff_full)
  qed
qed

lemma next_loop_overrun_plain:
  "b \<noteq> END \<Longrightarrow> b \<noteq> ESC \<Longrightarrow> length buf < n \<Longrightarrow>
   fst (next_loop c0 (map Got (replicate n b) @ fd) buf 0) = Inl (Out_of_bounds (length buf))"
  using next_loop_overrun [of 0 buf "replicate n b" c0 fd] by (simp add: stuffed_plain)

lemma take_1_update_0: "0 < length buf \<Longrightarrow> take (Suc 0) (buf[0 := x]) = [x]"
  by (cases buf) simp_all

lemma next_slip_packet_frame:
  "length p \<le> length buf \<Longrightarrow>
   next_slip_packet c0 (map Got (fst (encode_slip p)) @ fd) buf =
     (Inr (int (length p)), p @ drop (length p) buf, fd, END)"
  using next_loop_encoded [of 0 p buf c0 fd] by (simp add: next_slip_packet_def encode_slip_eq)

lemma next_slip_packet_bad_escape:
  "c \<noteq> ESC_END \<Longrightarrow> c \<noteq> ESC_ESC \<Longrightarrow> length q \<le> length buf \<Longrightarrow>
   next_slip_packet c0 (map Got (fst (encode_loop q [] 0)) @ Got ESC # Got c # fd) buf =
     (Inl Decoding_error, q @ drop (length q) buf, fd, c)"
  using next_loop_prefix [of 0 q buf c0 "Got ESC # Got c # fd"]
  by (auto simp: next_slip_packet_def encode_loop_eq next_loop_bad_escape)

subsection \<open>Streams with an undefined escape\<close>

text \<open>
  A stream in which some \<open>ESC\<close> is followed by a byte that is neither \<open>ESC_END\<close> nor
  \<open>ESC_ESC\<close> is, up to the first such pair, made of whole encoded frames \<open>ps\<close> and the
  encoded start \<open>q\<close> of one more frame.
\<close>

lemma shape_first:
  "c \<noteq> ESC_END \<Longrightarrow> c \<noteq> ESC_ESC \<Longrightarrow>
   \<exists>ps q c' rest'. ESC # c # rest =
      concat (map (\<lambda>p. concat (map stuff p) @ [END]) ps) @ concat (map stuff q) @ ESC # c' # rest' \<and>
      c' \<noteq> ESC_END \<and> c' \<noteq> ESC_ESC"
proof -
  assume "c \<noteq> ESC_END" and "c \<noteq> ESC_ESC"
  then have "ESC # c # rest =
      concat (map (\<lambda>p. concat (map stuff p) @ [END]) []) @ concat (map stuff []) @ ESC # c # rest \<and>
      c \<noteq> ESC_END \<and> c \<noteq> ESC_ESC"
    by simp
  then show ?thesis by blast
qed

lemma shape_END:
  assumes "\<exists>ps q c rest. t =
      concat (map (\<lambda>p. concat (map stuff p) @ [END]) ps) @ concat (map stuff q) @ ESC # c # rest \<and>
      c \<noteq> ESC_END \<and> c \<noteq> ESC_ESC"
  shows "\<exists>ps q c rest. END # t =
      concat (map (\<lambda>p. concat (map stuff p) @ [END]) ps) @ concat (map stuff q) @ ESC # c # rest \<and>
      c \<noteq> ESC_END \<and> c \<noteq> ESC_ESC"
proof -
  from assms obtain ps q c rest where t: "t =
      concat (map (\<lambda>p. concat (map stuff p) @ [END]) ps) @ concat (map stuff q) @ ESC # c # rest"
    and c: "c \<noteq> ESC_END" "c \<noteq> ESC_ESC"
    by blast
  have "END # t =
      concat (map (\<lambda>p. concat (map stuff p) @ [END]) ([] # ps)) @ concat (map stuff q) @ ESC # c # rest"
    by (simp add: t)
  with c show ?thesis by blast
qed

lemma shape_stuff:
  assumes "\<exists>ps q c rest. t =
      concat (map (\<lambda>p. concat (map stuff p) @ [END]) ps) @ concat (map stuff q) @ ESC # c # rest \<and>
      c \<noteq> ESC_END \<and> c \<noteq> ESC_ESC"
  shows "\<exists>ps q c rest. stuff x @ t =
      concat (map (\<lambda>p. concat (map stuff p) @ [END]) ps) @ concat (map stuff q) @ ESC # c # rest \<and>
      c \<noteq> ESC_END \<and> c \<noteq> ESC_ESC"
proof -
  from assms obtain ps q c rest where t: "t =
      concat (map (\<lambda>p. concat (map stuff p) @ [END]) ps) @ concat (map stuff q) @ ESC # c # rest"
    and c: "c \<noteq> ESC_END" "c \<noteq> ESC_ESC"
    by blast
  show ?thesis
  proof (cases ps)
    case Nil
    then have "stuff x @ t =
        concat (map (\<lambda>p. concat (map stuff p) @ [END]) []) @ concat (map stuff (x # q)) @ ESC # c # rest"
      by (simp add: t)
    with c show ?thesis by blast
  next
    case (Cons p ps')
    then have "stuff x @ t =
        concat (map (\<lambda>p. concat (map stuff p) @ [END]) ((x # p) # ps')) @ concat (map stuff q) @
          ESC # c # rest"
      by (simp add: t)
    with c show ?thesis by blast
  qed
qed

lemma bad_escape_tail: "bad_escape (a # bs) \<Longrightarrow> a \<noteq> ESC \<Longrightarrow> bad_escape bs"
  by (cases bs) simp_all

lemma bad_escape_shape:
  "bad_escape bs \<Longrightarrow>
   \<exists>ps q c rest. bs =
      concat (map (\<lambda>p. concat (map stuff p) @ [END]) ps) @ concat (map stuff q) @ ESC # c # rest \<and>
      c \<noteq> ESC_END \<and> c \<noteq> ESC_ESC"
proof (induction "length bs" arbitrary: bs rule: less_induct)
  case less
  from less.prems obtain a b rest where bs: "bs = a # b # rest"
    by (cases bs rule: bad_escape.cases) simp_all
  show ?case
  proof (cases "a = ESC")
    case True
    show ?thesis
    proof (cases "b = ESC_END \<or> b = ESC_ESC")
      case good: True
      then have "b \<noteq> ESC"
        by (auto simp: slip_bytes)
      with less.prems good have tail: "bad_escape rest"
        unfolding bs True by (auto dest: bad_escape_tail)
      have "length rest < length bs"
        by (simp add: bs)
      note IH = less.hyps [OF this tail]
      from good show ?thesis
      proof
        assume "b = ESC_END"
        with True have eq: "bs = stuff END @ rest"
          by (simp add: bs stuff_def)
        show ?thesis
          unfolding eq by (rule shape_stuff [OF IH])
      next
        assume "b = ESC_ESC"
        with True have eq: "bs = stuff ESC @ rest"
          by (simp add: bs stuff_def slip_bytes)
        show ?thesis
          unfolding eq by (rule shape_stuff [OF IH])
      qed
    next
      case False
      then have "b \<noteq> ESC_END" and "b \<noteq> ESC_ESC"
        by simp_all
      then show ?thesis
        unfolding bs True by (rule shape_first)
    qed
  next
    case False
    with less.prems have tail: "bad_escape (b # rest)"
      unfolding bs by (rule bad_escape_tail)
    have "length (b # rest) < length bs"
      by (simp add: bs)
    note IH = less.hyps [OF this tail]
    show ?thesis
    proof (cases "a = END")
      case True
      then have eq: "bs = END # b # rest"
        by (simp add: bs)
      show ?thesis
        unfolding eq by (rule shape_END [OF IH])
    next
      case plain: False
      with False have eq: "bs = stuff a @ b # rest"
        by (simp add: bs stuff_def)
      show ?thesis
        unfolding eq by (rule shape_stuff [OF IH])
    qed
  qed
qed

lemma bad_escape_frames:
  "bad_escape bs \<Longrightarrow>
   \<exists>ps q c rest. bs =
      concat (map (\<lambda>p. fst (encode_slip p)) ps) @ fst (encode_loop q [] 0) @ ESC # c # rest \<and>
      c \<noteq> ESC_END \<and> c \<noteq> ESC_ESC"
  using bad_escape_shape [of bs] by (simp add: encode_slip_eq encode_loop_eq)

section \<open>Facts about the pumps and the opening of the transport\<close>

lemma rx_loop_error:
  "next_slip_packet c0 fd c = (Inl e, c', fd', c1) \<Longrightarrow> rx_loop c0 fd c written = (written, e)"
  by (subst rx_loop.simps) simp

lemma rx_loop_packet:
  "next_slip_packet c0 fd c = (Inr len, c', fd', c1) \<Longrightarrow>
   rx_loop c0 fd c written =
     (if len < 1 then rx_loop c1 fd' c' written
      else rx_loop c1 fd' c' (written @ [[0, 0, 0, AF_INET] @ take (nat len) c']))"
  by (subst rx_loop.simps) simp

lemma rx_loop_END: "rx_loop c0 (Got END # fd) c written = rx_loop END fd c written"
proof -
  have "next_slip_packet c0 (Got END # fd) c = (Inr 0, c, fd, END)"
    by (simp add: next_slip_packet_def next_loop_END)
  from rx_loop_packet [OF this] show ?thesis
    by simp
qed

lemma rx_loop_frame:
  assumes "length p \<le> length buf"
  shows "rx_loop c0 (map Got (fst (encode_slip p)) @ fd) buf written =
           rx_loop END fd (p @ drop (length p) buf)
             (written @ (if p = [] then [] else [[0, 0, 0, AF_INET] @ p]))"
proof -
  note step = rx_loop_packet [OF next_slip_packet_frame [OF assms], of c0 fd written]
  have whole: "take (nat (int (length p))) (p @ drop (length p) buf) = p"
    by simp
  show ?thesis
  proof (cases "p = []")
    case True
    with step show ?thesis by simp
  next
    case False
    then have "\<not> int (length p) < 1"
      by (cases p) simp_all
    with step False show ?thesis
      by (simp only: whole if_False)
  qed
qed

lemma rx_loop_frames:
  "\<forall>p \<in> set ps. length p \<le> length buf \<Longrightarrow>
   \<exists>c' buf'. length buf' = length buf \<and>
     rx_loop c0 (map Got (concat (map (\<lambda>p. fst (encode_slip p)) ps)) @ fd) buf written =
       rx_loop c' fd buf' (written @ map (\<lambda>p. [0, 0, 0, AF_INET] @ p) (filter (\<lambda>p. p \<noteq> []) ps))"
proof (induction ps arbitrary: c0 buf written)
  case Nil
  then show ?case by auto
next
  case (Cons p ps)
  from Cons.prems have p: "length p \<le> length buf"
    by simp
  define buf1 where "buf1 = p @ drop (length p) buf"
  from p have len: "length buf1 = length buf"
    by (simp add: buf1_def)
  with Cons.prems have "\<forall>r \<in> set ps. length r \<le> length buf1"
    by simp
  from Cons.IH [OF this]
  obtain c' buf' where buf': "length buf' = length buf1"
    and run: "rx_loop END (map Got (concat (map (\<lambda>p. fst (encode_slip p)) ps)) @ fd) buf1
        (written @ (if p = [] then [] else [[0, 0, 0, AF_INET] @ p])) =
      rx_loop c' fd buf'
        ((written @ (if p = [] then [] else [[0, 0, 0, AF_INET] @ p])) @
          map (\<lambda>p. [0, 0, 0, AF_INET] @ p) (filter (\<lambda>p. p \<noteq> []) ps))"
    by blast
  have "rx_loop c0 (map Got (concat (map (\<lambda>p. fst (encode_slip p)) (p # ps))) @ fd) buf written =
      rx_loop END (map Got (concat (map (\<lambda>p. fst (encode_slip p)) ps)) @ fd) buf1
        (written @ (if p = [] then [] else [[0, 0, 0, AF_INET] @ p]))"
    using rx_loop_frame [OF p, of c0 "map Got (concat (map (\<lambda>p. fst (encode_slip p)) ps)) @ fd" written]
    by (simp add: buf1_def)
  with run have "rx_loop c0 (map Got (concat (map (\<lambda>p. fst (encode_slip p)) (p # ps))) @ fd) buf written =
      rx_loop c' fd buf'
        (written @ map (\<lambda>p. [0, 0, 0, AF_INET] @ p) (filter (\<lambda>p. p \<noteq> []) (p # ps)))"
    by simp
  with buf' len show ?case
    by auto
qed

lemma rx_loop_frames_then_bad_escape:
  assumes "c \<noteq> ESC_END" and "c \<noteq> ESC_ESC"
    and "\<forall>p \<in> set ps. length p \<le> length buf" and "length q \<le> length buf"
  shows "rx_loop c0
           (map Got (concat (map (\<lambda>p. fst (encode_slip p)) ps) @ fst (encode_loop q [] 0) @ [ESC, c]) @ fd)
           buf written =
         (written @ map (\<lambda>p. [0, 0, 0, AF_INET] @ p) (filter (\<lambda>p. p \<noteq> []) ps), Decoding_error)"
proof -
  let ?tail = "map Got (fst (encode_loop q [] 0)) @ Got ESC # Got c # fd"
  from rx_loop_frames [OF assms(3), of c0 ?tail written]
  obtain c' buf' where buf': "length buf' = length buf"
    and run: "rx_loop c0 (map Got (concat (map (\<lambda>p. fst (encode_slip p)) ps)) @ ?tail) buf written =
      rx_loop c' ?tail buf'
        (written @ map (\<lambda>p. [0, 0, 0, AF_INET] @ p) (filter (\<lambda>p. p \<noteq> []) ps))"
    by blast
  from assms(4) buf' have "length q \<le> length buf'"
    by simp
  note stop = rx_loop_error [OF next_slip_packet_bad_escape [OF assms(1, 2) this]]
  from run show ?thesis
    by (simp add: stop)
qed


lemma tx_loop_sigpipe:
  assumes "4 \<le> length f"
  shows "tx_loop (Tun_frame f # rs) (Write_sigpipe # ws) w cs =
           \<lparr>wire = w, calls = cs @ [sent_frame f], stop = Killed_by_SIGPIPE\<rparr>"
proof -
  define c where "c = take MAX_PACKET_SIZE f"
  have "4 \<le> MAX_PACKET_SIZE"
    by (simp add: MAX_PACKET_SIZE_def NULL_LOOPBACK_HEADER_SIZE_def)
  with assms have len: "\<not> int (length c) - 4 < 0"
    by (simp add: c_def)
  have strip: "take (nat (int (length c) - 4)) (drop 4 c) = drop 4 c"
    by simp
  obtain out n where e: "encode_slip (drop 4 c) = (out, n)"
    by (cases "encode_slip (drop 4 c)")
  note whole = encode_slip_count [OF e]
  from e have sent: "sent_frame f = out"
    by (simp add: sent_frame_def c_def)
  show ?thesis
    apply (subst tx_loop.simps)
    apply (fold c_def)
    apply (simp only: Let_def len strip e whole sent if_False prod.case list.case
        write_outcome.case)
    done
qed




text \<open>
  A \<open>write\<close> that raises \<open>SIGPIPE\<close> ends the pump with the process, the frames still to
  come from the tunnel unread.
\<close>

lemma tx_thread_sigpipe:
  "4 \<le> length f \<Longrightarrow>
   tx_thread (Tun_frame f # rs) (Write_sigpipe # ws) =
     \<lparr>wire = [], calls = [sent_frame f], stop = Killed_by_SIGPIPE\<rparr>"
  unfolding tx_thread_def using tx_loop_sigpipe [of f rs ws "[]" "[]"] by (simp del: tx_loop.simps)

lemma connect_device_hardware_no_exit:
  "connect_device DEVICE_TYPE_HARDWARE False ss \<noteq> Exited status"
  by (induction ss) (simp_all add: open_serial_port_def)

lemma connect_device_fatal_first:
  "connect_device device_type True (s # ss) \<noteq> Still_retrying"
  by (cases device_type)
     (simp_all add: open_serial_port_def open_unix_domain_socket_as_client_def
        open_unix_domain_socket_as_server_def)

lemma rx_loop_Fail_END: "rx_loop END (Fail # fd) c written = rx_loop END fd c written"
proof -
  have "decode_slip END (Fail # fd) = (Inr DECODE_END_OF_PACKET, fd, END)"
    by (simp add: decode_slip_def slip_bytes)
  then have "next_slip_packet END (Fail # fd) c = (Inr 0, c, fd, END)"
    unfolding next_slip_packet_def by (subst next_loop.simps) simp
  from rx_loop_packet [OF this] show ?thesis
    by simp
qed

lemma rx_loop_eof: "rx_loop c0 [] c written = (written, Read_error)"
  by (rule rx_loop_error [OF next_slip_packet_eof])

lemma rx_loop_one_byte_frame:
  assumes "b \<noteq> END" and "b \<noteq> ESC" and "0 < length buf"
  shows "rx_loop c0 (Got b # Got END # fd) buf written =
           rx_loop END fd (buf[0 := b]) (written @ [[0, 0, 0, AF_INET, b]])"
proof -
  from assms(3) have fits: "length [b] \<le> length buf"
    by (cases buf) simp_all
  from assms(1, 2) have enc: "fst (encode_slip [b]) = [b, END]"
    by (simp add: encode_slip_eq stuff_def)
  from assms(3) have upd: "b # drop (Suc 0) buf = buf[0 := b]"
    by (cases buf) simp_all
  from rx_loop_frame [OF fits, of c0 fd written] show ?thesis
    by (simp add: enc upd)
qed

section \<open>The claims\<close>

text \<open>
  C1. Round trip: for every packet \<open>p\<close> of at most \<open>MTU\<close> bytes, \<open>next_slip_packet\<close>
  reading the bytes that \<open>encode_slip\<close> produced for \<open>p\<close>, into an array of \<open>MTU\<close>
  bytes, returns \<open>length p\<close>, leaves \<open>p\<close> in the first \<open>length p\<close> places of the array
  and has consumed exactly the frame. Nothing depends on the stale content \<open>c0\<close> of the
  decoder's local, on the content of the array before, or on what follows in the channel.
\<close>

theorem slip_round_trip:
  assumes "length p \<le> MTU" and "length buf = MTU"
  shows "case next_slip_packet c0 (map Got (fst (encode_slip p)) @ fd) buf of
           (r, buf', fd', c') \<Rightarrow>
             r = Inr (int (length p)) \<and> take (length p) buf' = p \<and> fd' = fd"
proof -
  from assms have fits: "length p \<le> length buf"
    by simp
  show ?thesis
    by (simp add: next_slip_packet_frame [OF fits])
qed

theorem slip_round_trip_witness:
  "length [0x41, 0xc0, 0x42 :: byte] \<le> MTU \<and> length (replicate MTU (0 :: byte)) = MTU \<and>
   (case next_slip_packet 0 (map Got (fst (encode_slip [0x41, 0xc0, 0x42])) @ []) (replicate MTU 0) of
      (r, buf', fd', c') \<Rightarrow> r = Inr 3 \<and> take 3 buf' = [0x41, 0xc0, 0x42] \<and> fd' = [])"
proof -
  have small: "length [0x41, 0xc0, 0x42 :: byte] \<le> MTU"
    by (simp add: MTU_def)
  have size: "length (replicate MTU (0 :: byte)) = MTU"
    by simp
  from slip_round_trip [OF small size, where ?c0.0 = 0 and fd = "[]"] small size show ?thesis
    by (simp add: numeral_3_eq_3)
qed

text \<open>
  C2. The decoder has no bound on \<open>i\<close>. A peer that sends \<open>MTU + 1\<close> bytes \<open>0x41\<close> and
  then \<open>0xc0\<close> (which is what \<open>encode_slip\<close> yields for a packet of \<open>MTU + 1\<close> bytes)
  makes \<open>next_slip_packet\<close> store at index \<open>MTU\<close> of an array of \<open>MTU\<close> bytes, in
  \<open>rx_thread\<close> as well.
\<close>

theorem buffer_overrun:
  "fst (encode_slip (replicate (MTU + 1) 0x41)) = replicate (MTU + 1) 0x41 @ [0xc0] \<and>
   fst (next_slip_packet c0 (map Got (replicate (MTU + 1) 0x41 @ [0xc0])) (replicate MTU 0)) =
     Inl (Out_of_bounds MTU) \<and>
   snd (rx_thread c0 (map Got (replicate (MTU + 1) 0x41 @ [0xc0]))) = Out_of_bounds MTU"
proof -
  have plain: "(0x41 :: byte) \<noteq> END" "(0x41 :: byte) \<noteq> ESC"
    by (simp_all add: slip_bytes)
  have enc: "fst (encode_slip (replicate (MTU + 1) 0x41)) = replicate (MTU + 1) 0x41 @ [0xc0]"
    using encode_slip_plain [OF plain, of "MTU + 1"] by (simp add: END_def)
  have "length (replicate MTU (0 :: byte)) < MTU + 1"
    by simp
  from next_loop_overrun_plain [OF plain this, of c0 "[Got 0xc0]"]
  have over:
    "fst (next_slip_packet c0 (map Got (replicate (MTU + 1) 0x41 @ [0xc0])) (replicate MTU 0)) =
       Inl (Out_of_bounds MTU)"
    by (simp add: next_slip_packet_def)
  then obtain c' fd' c1 where
    "next_slip_packet c0 (map Got (replicate (MTU + 1) 0x41 @ [0xc0])) (replicate MTU 0) =
       (Inl (Out_of_bounds MTU), c', fd', c1)"
    by (metis prod.collapse)
  then have "rx_thread c0 (map Got (replicate (MTU + 1) 0x41 @ [0xc0])) = ([], Out_of_bounds MTU)"
    unfolding rx_thread_def by (rule rx_loop_error)
  with enc over show ?thesis
    by simp
qed

text \<open>
  C3. A \<open>read\<close> that returns -1 is not taken for a failure by \<open>decode_slip\<close>: with the
  stale byte \<open>0x41\<close> in \<open>c\<close> the call returns \<open>0x41\<close> as a decoded byte, and
  \<open>rx_thread\<close> forwards a packet made of it. Only a \<open>read\<close> that returns 0 gives the
  read error.
\<close>

theorem read_error_not_signalled:
  "decode_slip 0x41 [Fail] = (Inr 0x41, [], 0x41) \<and>
   rx_thread 0x41 [Fail, Got 0xc0] = ([[0, 0, 0, AF_INET, 0x41]], Read_error) \<and>
   decode_slip 0x41 [Zero] = (Inl Read_error, [], 0x41)"
proof -
  have one: "decode_slip 0x41 [Fail] = (Inr 0x41, [], 0x41)"
    by (simp add: decode_slip_def slip_bytes)
  have zero: "decode_slip 0x41 [Zero] = (Inl Read_error, [], 0x41)"
    by (simp add: decode_slip_def)
  have "decode_slip 0x41 (Fail # fd) = (Inr 0x41, fd, 0x41)" for fd
    by (simp add: decode_slip_def slip_bytes)
  then have "next_slip_packet 0x41 [Fail, Got END] (replicate MTU 0) =
      (Inr 1, (replicate MTU 0)[0 := 0x41], [], END)"
    unfolding next_slip_packet_def
    by (subst next_loop.simps) (simp add: next_loop_END DECODE_END_OF_PACKET_def MTU_def)
  from rx_loop_packet [OF this]
  have "rx_thread 0x41 [Fail, Got END] =
      rx_loop END [] ((replicate MTU 0)[0 := 0x41]) [[0, 0, 0, AF_INET, 0x41]]"
    by (simp add: rx_thread_def take_1_update_0 MTU_def)
  also have "\<dots> = ([[0, 0, 0, AF_INET, 0x41]], Read_error)"
    by (rule rx_loop_eof)
  finally have "rx_thread 0x41 [Fail, Got 0xc0] = ([[0, 0, 0, AF_INET, 0x41]], Read_error)"
    by (simp add: END_def)
  with one zero show ?thesis
    by simp
qed

text \<open>
  C4, as amended. An \<open>ESC\<close> followed by a byte \<open>c\<close> that is neither \<open>ESC_END\<close> nor
  \<open>ESC_ESC\<close>: \<open>decode_slip\<close> returns its decoding error and no byte, whatever stands
  in the channel after the pair. In a stream made of any whole frames \<open>ps\<close> and the start
  \<open>q\<close> of one more frame, each decoding to at most \<open>MTU\<close> bytes, then the pair, then
  anything, \<open>next_slip_packet\<close> stores nothing for the pair and \<open>rx_thread\<close> writes the
  frames before the pair (the empty ones left out) and ends with the decoding error.
  Every stream with such a pair has this shape up to its first such pair
  (\<open>bad_escape_frames\<close>), so the only streams left out are those in which a frame outgrows
  the array first. In particular the stream \<open>0xdb, 0x01, 0xc0\<close> gives the decoding
  error, with the array untouched and no frame written.
\<close>

theorem undefined_escape:
  assumes "c \<noteq> ESC_END" and "c \<noteq> ESC_ESC"
    and "\<forall>p \<in> set ps. length p \<le> MTU" and "length q \<le> MTU" and "length buf = MTU"
  shows "decode_slip c0 (Got ESC # Got c # fd) = (Inl Decoding_error, fd, c) \<and>
         next_slip_packet c0 (map Got (fst (encode_loop q [] 0)) @ Got ESC # Got c # fd) buf =
           (Inl Decoding_error, q @ drop (length q) buf, fd, c) \<and>
         rx_thread c0
           (map Got (concat (map (\<lambda>p. fst (encode_slip p)) ps) @ fst (encode_loop q [] 0) @ [ESC, c]) @ fd) =
           (map (\<lambda>p. [0, 0, 0, AF_INET] @ p) (filter (\<lambda>p. p \<noteq> []) ps), Decoding_error) \<and>
         next_slip_packet c0 [Got 0xdb, Got 0x01, Got 0xc0] buf =
           (Inl Decoding_error, buf, [Got 0xc0], 0x01) \<and>
         rx_thread c0 [Got 0xdb, Got 0x01, Got 0xc0] = ([], Decoding_error)"
proof -
  have one: "decode_slip c0 (Got ESC # Got c # fd) = (Inl Decoding_error, fd, c)"
    using assms(1, 2) by (rule decode_slip_bad_escape)
  from assms(4, 5) have "length q \<le> length buf"
    by simp
  note inside = next_slip_packet_bad_escape [OF assms(1, 2) this, of c0 fd]
  from assms(3) have frames: "\<forall>p \<in> set ps. length p \<le> length (replicate MTU (0 :: byte))"
    by simp
  from assms(4) have start: "length q \<le> length (replicate MTU (0 :: byte))"
    by simp
  have stream:
    "rx_thread c0
       (map Got (concat (map (\<lambda>p. fst (encode_slip p)) ps) @ fst (encode_loop q [] 0) @ [ESC, c]) @ fd) =
     (map (\<lambda>p. [0, 0, 0, AF_INET] @ p) (filter (\<lambda>p. p \<noteq> []) ps), Decoding_error)"
    unfolding rx_thread_def
    using rx_loop_frames_then_bad_escape [OF assms(1, 2) frames start, of c0 fd "[]"] by simp
  have example:
    "next_slip_packet c0 [Got 0xdb, Got 0x01, Got 0xc0] b = (Inl Decoding_error, b, [Got 0xc0], 0x01)" for b
    using next_loop_bad_escape [of "0x01" c0 "[Got 0xc0]" b 0]
    by (simp add: next_slip_packet_def slip_bytes)
  have "rx_thread c0 [Got 0xdb, Got 0x01, Got 0xc0] = ([], Decoding_error)"
    unfolding rx_thread_def by (rule rx_loop_error [OF example])
  with one inside stream example show ?thesis
    by blast
qed

theorem undefined_escape_witness:
  "decode_slip 0 [Got ESC, Got 0x01, Got END] = (Inl Decoding_error, [Got END], 0x01) \<and>
   fst (next_slip_packet 0 (map Got (fst (encode_loop [0x43] [] 0)) @ [Got ESC, Got 0x01, Got END])
          (replicate MTU 0)) = Inl Decoding_error \<and>
   rx_thread 0
     (map Got (concat (map (\<lambda>p. fst (encode_slip p)) [[0x41], [], [0x42, 0xc0]]) @
        fst (encode_loop [0x43] [] 0) @ [ESC, 0x01]) @ [Got END]) =
     ([[0, 0, 0, AF_INET, 0x41], [0, 0, 0, AF_INET, 0x42, 0xc0]], Decoding_error)"
proof -
  have a: "(0x01 :: byte) \<noteq> ESC_END" and b: "(0x01 :: byte) \<noteq> ESC_ESC"
    by (simp_all add: slip_bytes)
  have c: "\<forall>p \<in> set [[0x41], [], [0x42, 0xc0 :: byte]]. length p \<le> MTU"
    by (simp add: MTU_def)
  have d: "length [0x43 :: byte] \<le> MTU"
    by (simp add: MTU_def)
  have e: "length (replicate MTU (0 :: byte)) = MTU"
    by simp
  from undefined_escape [OF a b c d e, where ?c0.0 = 0 and fd = "[Got END]"] show ?thesis
    by simp
qed

text \<open>
  C4, as stated for every input stream, fails. After \<open>MTU + 1\<close> bytes \<open>0x41\<close> the pair
  \<open>0xdb, 0x01\<close> is never reached: the store at index \<open>MTU\<close> comes first, and neither
  \<open>next_slip_packet\<close> nor \<open>rx_thread\<close> ends with the decoding error.
\<close>

theorem undefined_escape_after_long_frame:
  "fst (next_slip_packet 0 (map Got (replicate (MTU + 1) 0x41 @ [0xdb, 0x01])) (replicate MTU 0)) =
     Inl (Out_of_bounds MTU) \<and>
   snd (rx_thread 0 (map Got (replicate (MTU + 1) 0x41 @ [0xdb, 0x01]))) = Out_of_bounds MTU \<and>
   snd (rx_thread 0 (map Got (replicate (MTU + 1) 0x41 @ [0xdb, 0x01]))) \<noteq> Decoding_error"
proof -
  have plain: "(0x41 :: byte) \<noteq> END" "(0x41 :: byte) \<noteq> ESC"
    by (simp_all add: slip_bytes)
  have "length (replicate MTU (0 :: byte)) < MTU + 1"
    by simp
  from next_loop_overrun_plain [OF plain this, of 0 "[Got 0xdb, Got 0x01]"]
  have over:
    "fst (next_slip_packet 0 (map Got (replicate (MTU + 1) 0x41 @ [0xdb, 0x01])) (replicate MTU 0)) =
       Inl (Out_of_bounds MTU)"
    by (simp add: next_slip_packet_def)
  then obtain c' fd' c1 where
    "next_slip_packet 0 (map Got (replicate (MTU + 1) 0x41 @ [0xdb, 0x01])) (replicate MTU 0) =
       (Inl (Out_of_bounds MTU), c', fd', c1)"
    by (metis prod.collapse)
  then have "rx_thread 0 (map Got (replicate (MTU + 1) 0x41 @ [0xdb, 0x01])) = ([], Out_of_bounds MTU)"
    unfolding rx_thread_def by (rule rx_loop_error)
  with over show ?thesis
    by simp
qed

text \<open>
  C5. With \<open>error_is_fatal\<close> false (every attempt after the first), a failing \<open>bind\<close>
  of the socket server, or a failing \<open>socket\<close> of the socket client, ends the process
  through \<open>exit(-1)\<close>. A failing \<open>accept\<close> is retried.
\<close>

theorem reconnect_exits:
  "connect_device DEVICE_TYPE_SOCKET_SERVER False
     [\<lparr>sys_open = True, sys_tcgetattr = True, sys_tcsetattr = True, sys_socket = True,
       sys_connect = True, sys_bind = False, sys_listen = True, sys_accept = True, sys_fd = 5\<rparr>] =
     Exited (- 1) \<and>
   connect_device DEVICE_TYPE_SOCKET_CLIENT False
     [\<lparr>sys_open = True, sys_tcgetattr = True, sys_tcsetattr = True, sys_socket = False,
       sys_connect = True, sys_bind = True, sys_listen = True, sys_accept = True, sys_fd = 5\<rparr>] =
     Exited (- 1) \<and>
   connect_device DEVICE_TYPE_SOCKET_SERVER False
     [\<lparr>sys_open = True, sys_tcgetattr = True, sys_tcsetattr = True, sys_socket = True,
       sys_connect = True, sys_bind = True, sys_listen = True, sys_accept = False, sys_fd = 5\<rparr>] =
     Still_retrying"
  by (simp add: open_unix_domain_socket_as_server_def open_unix_domain_socket_as_client_def)

text \<open>
  C6. For every packet of at most \<open>MTU\<close> bytes the count that \<open>encode_slip\<close> returns is
  the number of bytes it stored, lies between \<open>length p + 1\<close> and \<open>2 * length p + 1\<close> and
  fits the array \<open>encoded\<close> of \<open>MAX_PACKET_SIZE_SLIP\<close> bytes. A packet of \<open>MTU\<close> bytes
  \<open>0xc0\<close> encodes to \<open>2 * MTU + 1\<close> bytes, which decode to the packet again. (The encoder
  is a total function of its input: the model is a terminating recursion on the list.)
\<close>

theorem encode_slip_length:
  assumes "length p \<le> MTU"
  shows "(case encode_slip p of
            (out, count) \<Rightarrow>
              count = int (length out) \<and> int (length p) + 1 \<le> count \<and>
              count \<le> 2 * int (length p) + 1 \<and> length out \<le> MAX_PACKET_SIZE_SLIP) \<and>
         snd (encode_slip (replicate MTU END)) = 2 * int MTU + 1 \<and>
         length (fst (encode_slip (replicate MTU END))) = 2 * MTU + 1 \<and>
         next_slip_packet c0 (map Got (fst (encode_slip (replicate MTU END)))) (replicate MTU 0) =
           (Inr (int MTU), replicate MTU END, [], END)"
proof -
  from assms length_stuffed [of p] have "length (concat (map stuff p)) + 1 \<le> MAX_PACKET_SIZE_SLIP"
    by (simp add: MAX_PACKET_SIZE_SLIP_def)
  with length_stuffed [of p] have first:
    "case encode_slip p of
       (out, count) \<Rightarrow>
         count = int (length out) \<and> int (length p) + 1 \<le> count \<and>
         count \<le> 2 * int (length p) + 1 \<and> length out \<le> MAX_PACKET_SIZE_SLIP"
    by (simp add: encode_slip_eq)
  have count: "snd (encode_slip (replicate MTU END)) = 2 * int MTU + 1"
    by (simp add: encode_slip_eq length_stuffed_all_END)
  have len: "length (fst (encode_slip (replicate MTU END))) = 2 * MTU + 1"
    by (simp add: encode_slip_eq length_stuffed_all_END)
  have fits: "0 + length (replicate MTU END) \<le> length (replicate MTU (0 :: byte))"
    by simp
  have decoded:
    "next_slip_packet c0 (map Got (fst (encode_slip (replicate MTU END)))) (replicate MTU 0) =
       (Inr (int MTU), replicate MTU END, [], END)"
    using next_loop_encoded [OF fits, of c0 "[]"]
    by (simp add: next_slip_packet_def encode_slip_eq)
  from first count len decoded show ?thesis
    by blast
qed

theorem encode_slip_length_witness:
  "length [0xc0, 0xc0 :: byte] \<le> MTU \<and>
   (case encode_slip [0xc0, 0xc0] of
      (out, count) \<Rightarrow>
        count = int (length out) \<and> 3 \<le> count \<and> count \<le> 5 \<and> length out \<le> MAX_PACKET_SIZE_SLIP) \<and>
   encode_slip [0xc0, 0xc0] = ([0xdb, 0xdc, 0xdb, 0xdc, 0xc0], 5)"
proof -
  have small: "length [0xc0, 0xc0 :: byte] \<le> MTU"
    by (simp add: MTU_def)
  from encode_slip_length [OF small]
  have "case encode_slip [0xc0, 0xc0] of
      (out, count) \<Rightarrow>
        count = int (length out) \<and> 3 \<le> count \<and> count \<le> 5 \<and> length out \<le> MAX_PACKET_SIZE_SLIP"
    by simp
  moreover have "encode_slip [0xc0, 0xc0] = ([0xdb, 0xdc, 0xdb, 0xdc, 0xc0], 5)"
    by (simp add: encode_slip_def slip_bytes)
  ultimately show ?thesis
    using small by blast
qed

text \<open>
  C7. \<open>encode_slip\<close> turns the packet \<open>0xc0\<close> into \<open>0xdb, 0xdc, 0xc0\<close>, the packet
  \<open>0xdb\<close> into \<open>0xdb, 0xdd, 0xc0\<close>, the empty packet into \<open>0xc0\<close>, and the packet
  \<open>0x41, 0xc0, 0x42\<close> into \<open>0x41, 0xdb, 0xdc, 0x42, 0xc0\<close>; the count returned is the
  number of bytes each time.
\<close>

theorem encode_slip_examples:
  "encode_slip [0xc0] = ([0xdb, 0xdc, 0xc0], 3) \<and>
   encode_slip [0xdb] = ([0xdb, 0xdd, 0xc0], 3) \<and>
   encode_slip [] = ([0xc0], 1) \<and>
   encode_slip [0x41, 0xc0, 0x42] = ([0x41, 0xdb, 0xdc, 0x42, 0xc0], 5)"
  by (simp add: encode_slip_def slip_bytes)

text \<open>
  C8. A lone \<open>END\<close> at the start of a frame: \<open>rx_thread\<close> hands nothing to the tunnel
  and goes round its loop again, with the array and the frames written so far as they
  were; all that has changed is that the decoder's local now holds \<open>END\<close>. The loop does
  go on: with nothing else in the channel the next \<open>read\<close> returns 0 and the thread
  ends, no frame written; a frame that follows the lone \<open>END\<close> is forwarded, and so are
  the frames on both sides of an empty frame between them; and when the \<open>read\<close> after
  the lone \<open>END\<close> returns -1, the stale \<open>END\<close> is taken for one more empty frame and
  still nothing is written.
\<close>

theorem empty_frame_suppressed:
  "rx_loop c0 (Got END # fd) c written = rx_loop END fd c written \<and>
   rx_thread c0 (Got END # fd) = rx_thread END fd \<and>
   rx_thread c0 [Got 0xc0] = ([], Read_error) \<and>
   rx_thread c0 [Got 0xc0, Got 0x41, Got 0xc0] = ([[0, 0, 0, AF_INET, 0x41]], Read_error) \<and>
   rx_thread c0 [Got 0x41, Got 0xc0, Got 0xc0, Got 0x42, Got 0xc0] =
     ([[0, 0, 0, AF_INET, 0x41], [0, 0, 0, AF_INET, 0x42]], Read_error) \<and>
   rx_thread c0 [Got 0xc0, Fail, Got 0xc0] = ([], Read_error)"
proof -
  have A: "(0x41 :: byte) \<noteq> END" "(0x41 :: byte) \<noteq> ESC"
    and B: "(0x42 :: byte) \<noteq> END" "(0x42 :: byte) \<noteq> ESC"
    by (simp_all add: slip_bytes)
  have size: "0 < length (replicate MTU (0 :: byte))"
    by (simp add: MTU_def)
  then have size': "0 < length ((replicate MTU (0 :: byte))[0 := 0x41])"
    by simp
  have alone: "rx_thread c0 [Got END] = ([], Read_error)"
    by (simp add: rx_thread_def rx_loop_END rx_loop_eof)
  have after: "rx_thread c0 [Got END, Got 0x41, Got END] = ([[0, 0, 0, AF_INET, 0x41]], Read_error)"
    by (simp add: rx_thread_def rx_loop_END rx_loop_one_byte_frame [OF A size] rx_loop_eof)
  have between: "rx_thread c0 [Got 0x41, Got END, Got END, Got 0x42, Got END] =
      ([[0, 0, 0, AF_INET, 0x41], [0, 0, 0, AF_INET, 0x42]], Read_error)"
    by (simp add: rx_thread_def rx_loop_END rx_loop_one_byte_frame [OF A size]
        rx_loop_one_byte_frame [OF B size'] rx_loop_eof)
  have failed: "rx_thread c0 [Got END, Fail, Got END] = ([], Read_error)"
    by (simp add: rx_thread_def rx_loop_END rx_loop_Fail_END rx_loop_eof)
  have step: "rx_thread c0 (Got END # fd) = rx_thread END fd"
    by (simp add: rx_thread_def rx_loop_END)
  from alone after between failed
  have runs: "rx_thread c0 [Got 0xc0] = ([], Read_error) \<and>
      rx_thread c0 [Got 0xc0, Got 0x41, Got 0xc0] = ([[0, 0, 0, AF_INET, 0x41]], Read_error) \<and>
      rx_thread c0 [Got 0x41, Got 0xc0, Got 0xc0, Got 0x42, Got 0xc0] =
        ([[0, 0, 0, AF_INET, 0x41], [0, 0, 0, AF_INET, 0x42]], Read_error) \<and>
      rx_thread c0 [Got 0xc0, Fail, Got 0xc0] = ([], Read_error)"
    by (simp add: END_def)
  from rx_loop_END [of c0 fd c written] step runs show ?thesis
    by blast
qed




text \<open>
  C10. The only test on the result of the tunnel \<open>read\<close> is \<open>len == -1\<close>. A \<open>read\<close>
  that returns 0 or 3 bytes passes it, \<open>len -= 4\<close> gives -4 or -1, and that negative
  length goes to \<open>memcpy\<close>. Only the result -1 ends the pump.
\<close>

theorem short_tunnel_read:
  "stop (tx_thread [Tun_frame []] ws) = Memcpy_negative (- 4) \<and>
   stop (tx_thread [Tun_frame [0, 0, 0]] ws) = Memcpy_negative (- 1) \<and>
   stop (tx_thread [Tun_fail] ws) = Tun_read_error"
  by (simp add: tx_thread_def Let_def MAX_PACKET_SIZE_def MTU_def NULL_LOOPBACK_HEADER_SIZE_def)

end
